theory Spec2Isabelle
  imports Main "HOL-Library.Product_Lexorder" "HOL-Library.Sublist"
begin

section \<open>Data model\<close>

text \<open>
  A \<^verbatim>\<open>datetime.date\<close> is the triple (year, month, day); Python compares dates
  field by field in that order, which is the lexicographic order of the triple.
  The year is not capped at the library's \<^verbatim>\<open>MAXYEAR\<close>.
\<close>

type_synonym cal_date = "nat \<times> nat \<times> nat"

type_synonym timestamp = nat

text \<open>
  One row of the tables \<^verbatim>\<open>price\<close> and \<^verbatim>\<open>temp_price\<close>: the four columns of the
  \<^verbatim>\<open>CREATE TABLE\<close> statement. All four are taken to hold a value (no SQL NULL);
  the price is counted in hundredths.
\<close>

record price_row =
  date :: cal_date
  premise_code :: string
  item_code :: string
  price :: int

text \<open>
  The table \<^verbatim>\<open>price\<close>. \<^verbatim>\<open>bulk_load_price.py\<close> and \<^verbatim>\<open>inc_load_price.py\<close> create it
  with \<^verbatim>\<open>PRIMARY KEY (date, premise_code, item_code)\<close>, \<^verbatim>\<open>load_transactions.py\<close>
  creates it without; all three say \<^verbatim>\<open>IF NOT EXISTS\<close>, so the table keeps the shape
  its first creator gave it.
\<close>

record price_table =
  primary_key :: bool
  rows :: "price_row list"

text \<open>One row of \<^verbatim>\<open>data_processing_log\<close>, whose primary key is \<^verbatim>\<open>processed_date\<close>.\<close>

record log_entry =
  processed_date :: cal_date
  processed_at :: timestamp
  file_url :: string
  records_loaded :: int

text \<open>
  The DuckDB file behind the connection \<^verbatim>\<open>conn\<close>: each of the two tables is
  there or not (\<open>None\<close>: the table does not exist).
\<close>

record duckdb =
  price_tbl :: "price_table option"
  data_processing_log :: "log_entry list option"

datatype error = HTTPError | DecodeError | ConstraintError | CatalogError | AttributeError

text \<open>
  What \<^verbatim>\<open>requests.get(url)\<close> followed by \<^verbatim>\<open>raise_for_status()\<close> meets: a body,
  which \<^verbatim>\<open>read_parquet\<close> decodes into rows or rejects, status 404, or any other
  failure.
\<close>

datatype payload = Parquet "price_row list" | Garbage

datatype response = Content payload | NotFound404 | HTTPFailure

type_synonym web = "string \<Rightarrow> response"

text \<open>
  \<^verbatim>\<open>CURRENT_TIMESTAMP\<close> as read by the ledger statement that is run for a
  given URL and date.
\<close>

type_synonym clock = "string \<Rightarrow> cal_date \<Rightarrow> timestamp"

section \<open>Fetching a snapshot\<close>

text \<open>
  \<^verbatim>\<open>download_parquet\<close> of the two loaders: the path of the stored body, \<^verbatim>\<open>None\<close> on
  404, and every other HTTP error re-raised.
\<close>

definition download_parquet :: "web \<Rightarrow> string \<Rightarrow> error + payload option" where
  "download_parquet w u =
     (case w u of
        Content f \<Rightarrow> Inr (Some f)
      | NotFound404 \<Rightarrow> Inr None
      | HTTPFailure \<Rightarrow> Inl HTTPError)"

definition read_parquet :: "payload \<Rightarrow> error + price_row list" where
  "read_parquet f = (case f of Parquet rs \<Rightarrow> Inr rs | Garbage \<Rightarrow> Inl DecodeError)"

section \<open>The deduplicating insert\<close>

text \<open>The key columns of a row, as the primary key of \<^verbatim>\<open>price\<close> lists them.\<close>

definition ident :: "price_row \<Rightarrow> cal_date \<times> string \<times> string" where
  "ident r = (date r, premise_code r, item_code r)"

text \<open>
  The common table expression \<^verbatim>\<open>new_records\<close> of \<^verbatim>\<open>bulk_load_price.py\<close>:
  \<^verbatim>\<open>SELECT DISTINCT t.* FROM temp_price t WHERE NOT EXISTS (SELECT 1 FROM price x
  WHERE x.date = t.date AND x.premise_code = t.premise_code AND x.item_code = t.item_code)\<close>.
  \<^verbatim>\<open>DISTINCT\<close> compares whole rows. SQL leaves the order of the result open; the
  model keeps the staged rows in their order, the last of equal rows standing for them.
\<close>

definition new_records :: "price_row list \<Rightarrow> price_row list \<Rightarrow> price_row list" where
  "new_records temp_price xs =
     remdups (filter (\<lambda>t. \<not> (\<exists>x \<in> set xs.
        date x = date t \<and> premise_code x = premise_code t \<and> item_code x = item_code t))
       temp_price)"

text \<open>
  The same expression in \<^verbatim>\<open>inc_load_price.py\<close>, which adds \<^verbatim>\<open>DATE(t.date) = ?\<close>
  for the day being processed.
\<close>

definition new_records_on :: "cal_date \<Rightarrow> price_row list \<Rightarrow> price_row list \<Rightarrow> price_row list" where
  "new_records_on d temp_price xs =
     remdups (filter (\<lambda>t. date t = d \<and> \<not> (\<exists>x \<in> set xs.
        date x = date t \<and> premise_code x = premise_code t \<and> item_code x = item_code t))
       temp_price)"

text \<open>
  \<^verbatim>\<open>INSERT INTO price SELECT ...\<close>: the statement appends all the rows or, where the
  table has its primary key and a key of the new rows is already stored or comes twice,
  raises and appends none.
\<close>

definition insert_into_price :: "price_table \<Rightarrow> price_row list \<Rightarrow> error + price_table" where
  "insert_into_price tbl new =
     (if primary_key tbl \<and>
         \<not> (distinct (map ident new) \<and> (\<forall>n \<in> set new. ident n \<notin> ident ` set (rows tbl)))
      then Inl ConstraintError
      else Inr (tbl\<lparr>rows := rows tbl @ new\<rparr>))"

text \<open>
  The merge statement of \<^verbatim>\<open>bulk_load_price.py\<close> (lines 89-103) and that of
  \<^verbatim>\<open>inc_load_price.py\<close> (lines 109-124) on the table: the table the statement leaves and
  the number of rows it inserted. What Python reads off the result of \<^verbatim>\<open>conn.execute\<close>
  is a matter of the DuckDB client and is modelled apart, below.
\<close>

definition merge_bulk :: "price_row list \<Rightarrow> price_table \<Rightarrow> error + (price_table \<times> nat)" where
  "merge_bulk temp_price tbl =
     (let new = new_records temp_price (rows tbl) in
      case insert_into_price tbl new of
        Inl e \<Rightarrow> Inl e
      | Inr tbl' \<Rightarrow> Inr (tbl', length new))"

definition merge_inc :: "cal_date \<Rightarrow> price_row list \<Rightarrow> price_table \<Rightarrow> error + (price_table \<times> nat)" where
  "merge_inc d temp_price tbl =
     (let new = new_records_on d temp_price (rows tbl) in
      case insert_into_price tbl new of
        Inl e \<Rightarrow> Inl e
      | Inr tbl' \<Rightarrow> Inr (tbl', length new))"

section \<open>The calendar\<close>

text \<open>
  The parts of \<^verbatim>\<open>datetime\<close> and \<^verbatim>\<open>dateutil\<close> the loaders call. A date of the
  library is a triple that \<open>valid_date\<close> accepts.
\<close>

definition is_leap :: "nat \<Rightarrow> bool" where
  "is_leap y = (y mod 4 = 0 \<and> (y mod 100 \<noteq> 0 \<or> y mod 400 = 0))"

definition days_in_month :: "nat \<Rightarrow> nat \<Rightarrow> nat" where
  "days_in_month y m =
     (if m = 2 then (if is_leap y then 29 else 28)
      else if m = 4 \<or> m = 6 \<or> m = 9 \<or> m = 11 then 30
      else 31)"

definition valid_date :: "cal_date \<Rightarrow> bool" where
  "valid_date = (\<lambda>(y, m, d). 1 \<le> y \<and> 1 \<le> m \<and> m \<le> 12 \<and> 1 \<le> d \<and> d \<le> days_in_month y m)"

text \<open>\<^verbatim>\<open>date += timedelta(days=1)\<close>: the next day of the calendar.\<close>

definition next_day :: "cal_date \<Rightarrow> cal_date" where
  "next_day = (\<lambda>(y, m, d).
     if d < days_in_month y m then (y, m, d + 1)
     else if m < 12 then (y, m + 1, 1)
     else (y + 1, 1, 1))"

text \<open>
  \<^verbatim>\<open>current_date += relativedelta(months=1)\<close>: the month goes up by one, past
  December the year does, and the day is cut to the length of the new month.
\<close>

definition add_month :: "cal_date \<Rightarrow> cal_date" where
  "add_month = (\<lambda>(y, m, d).
     let (y', m') = (if m + 1 > 12 then (y + 1, m + 1 - 12) else (y, m + 1))
     in (y', m', min (days_in_month y' m') d))"

text \<open>\<^verbatim>\<open>start_date.replace(day=1)\<close>.\<close>

definition replace_day1 :: "cal_date \<Rightarrow> cal_date" where
  "replace_day1 = (\<lambda>(y, m, d). (y, m, 1))"

text \<open>
  \<^verbatim>\<open>strftime('%Y-%m')\<close>: the year in four decimal digits (what the library prints for
  the years 1000 to 9999), a dash, the month in two.
\<close>

definition digit :: "nat \<Rightarrow> char" where
  "digit n = ''0123456789'' ! (n mod 10)"

definition strftime_Ym :: "cal_date \<Rightarrow> string" where
  "strftime_Ym = (\<lambda>(y, m, d).
     [digit (y div 1000), digit (y div 100), digit (y div 10), digit y, CHR ''-'',
      digit (m div 10), digit m])"

text \<open>The f-string both loaders build the address of a month's snapshot with.\<close>

definition snapshot_url :: "cal_date \<Rightarrow> string" where
  "snapshot_url d =
     ''https://storage.data.gov.my/pricecatcher/pricecatcher_'' @ strftime_Ym d @ ''.parquet''"

section \<open>Backfill: \<^verbatim>\<open>bulk_load_price.py\<close>\<close>

text \<open>
  \<^verbatim>\<open>generate_month_urls\<close>: the loop appends the pair of \<^verbatim>\<open>url\<close> and \<^verbatim>\<open>year_month\<close>
  while \<^verbatim>\<open>current_date <= end_date\<close>.
\<close>

function month_loop :: "cal_date \<Rightarrow> cal_date \<Rightarrow> (string \<times> string) list" where
  "month_loop current_date end_date =
     (if current_date \<le> end_date
      then (snapshot_url current_date, strftime_Ym current_date)
             # month_loop (add_month current_date) end_date
      else [])"
  by pat_completeness auto
termination
  by (relation "measure (\<lambda>(c, e). (Suc (fst e) - fst c) * 13 + (12 - fst (snd c)))")
     (auto simp: add_month_def less_eq_prod_def split: prod.splits if_splits)

declare month_loop.simps [simp del]

definition generate_month_urls :: "cal_date \<Rightarrow> cal_date \<Rightarrow> (string \<times> string) list" where
  "generate_month_urls start_date end_date = month_loop (replace_day1 start_date) end_date"

text \<open>The two \<^verbatim>\<open>CREATE TABLE IF NOT EXISTS\<close> statements of \<^verbatim>\<open>main\<close>.\<close>

definition create_price_table :: "duckdb \<Rightarrow> duckdb" where
  "create_price_table conn =
     (case price_tbl conn of
        None \<Rightarrow> conn\<lparr>price_tbl := Some \<lparr>primary_key = True, rows = []\<rparr>\<rparr>
      | Some t \<Rightarrow> conn)"

definition create_log_table :: "duckdb \<Rightarrow> duckdb" where
  "create_log_table conn =
     (case data_processing_log conn of
        None \<Rightarrow> conn\<lparr>data_processing_log := Some []\<rparr>
      | Some es \<Rightarrow> conn)"

text \<open>
  The DuckDB client for Python, as far as the loaders read a result off it.
  \<^verbatim>\<open>conn.execute\<close> returns the connection itself. Its attribute \<^verbatim>\<open>rowcount\<close> is the
  placeholder -1 of the DB-API, whatever statement ran; an attribute \<^verbatim>\<open>row_count\<close> it does
  not have, so reading it raises \<^verbatim>\<open>AttributeError\<close>.
\<close>

definition rowcount :: "duckdb \<Rightarrow> int" where
  "rowcount conn = - 1"

definition row_count :: "duckdb \<Rightarrow> error + int" where
  "row_count conn = Inl AttributeError"

text \<open>
  \<^verbatim>\<open>process_monthly_file\<close> of the backfill: \<^verbatim>\<open>None\<close> when the month is not published,
  else \<^verbatim>\<open>result.rowcount\<close>, read off the connection after the last statement, and the
  distinct dates of the whole file in order.
\<close>

definition process_monthly_file_bulk ::
  "web \<Rightarrow> duckdb \<Rightarrow> string \<Rightarrow> string \<Rightarrow> error + (duckdb \<times> (int \<times> cal_date list) option)" where
  "process_monthly_file_bulk w conn ym u =
     (case download_parquet w u of
        Inl e \<Rightarrow> Inl e
      | Inr None \<Rightarrow> Inr (conn, None)
      | Inr (Some f) \<Rightarrow>
          (case read_parquet f of
             Inl e \<Rightarrow> Inl e
           | Inr temp_price \<Rightarrow>
               (case price_tbl conn of
                  None \<Rightarrow> Inl CatalogError
                | Some tbl \<Rightarrow>
                    (case merge_bulk temp_price tbl of
                       Inl e \<Rightarrow> Inl e
                     | Inr (tbl', n) \<Rightarrow>
                         Inr (conn\<lparr>price_tbl := Some tbl'\<rparr>,
                              Some (rowcount (conn\<lparr>price_tbl := Some tbl'\<rparr>),
                                    sort (remdups (map date temp_price))))))))"

text \<open>
  The ledger statement \<^verbatim>\<open>INSERT INTO data_processing_log ... ON CONFLICT (processed_date)
  DO UPDATE SET processed_at = CURRENT_TIMESTAMP, records_loaded = excluded.records_loaded\<close>,
  the same in both loaders.
\<close>

fun upsert_log :: "cal_date \<Rightarrow> timestamp \<Rightarrow> string \<Rightarrow> int \<Rightarrow> log_entry list \<Rightarrow> log_entry list" where
  "upsert_log d ts u n [] =
     [\<lparr>processed_date = d, processed_at = ts, file_url = u, records_loaded = n\<rparr>]"
| "upsert_log d ts u n (e # es) =
     (if processed_date e = d
      then e\<lparr>processed_at := ts, records_loaded := n\<rparr> # es
      else e # upsert_log d ts u n es)"

definition log_progress :: "clock \<Rightarrow> cal_date \<Rightarrow> string \<Rightarrow> int \<Rightarrow> duckdb \<Rightarrow> error + duckdb" where
  "log_progress now d u n conn =
     (case data_processing_log conn of
        None \<Rightarrow> Inl CatalogError
      | Some es \<Rightarrow> Inr (conn\<lparr>data_processing_log := Some (upsert_log d (now u d) u n es)\<rparr>))"

text \<open>\<^verbatim>\<open>for processed_date in result['dates']\<close>.\<close>

fun log_dates :: "clock \<Rightarrow> string \<Rightarrow> int \<Rightarrow> cal_date list \<Rightarrow> duckdb \<Rightarrow> error + duckdb" where
  "log_dates now u n [] conn = Inr conn"
| "log_dates now u n (d # ds) conn =
     (case log_progress now d u n conn of
        Inl e \<Rightarrow> Inl e
      | Inr conn' \<Rightarrow> log_dates now u n ds conn')"

text \<open>
  \<^verbatim>\<open>for month_data in monthly_urls\<close>, with the running \<^verbatim>\<open>total_records\<close>. An
  exception leaves the loop and the run.
\<close>

fun bulk_loop :: "web \<Rightarrow> clock \<Rightarrow> (string \<times> string) list \<Rightarrow> int \<Rightarrow> duckdb \<Rightarrow> error + (duckdb \<times> int)" where
  "bulk_loop w now [] total_records conn = Inr (conn, total_records)"
| "bulk_loop w now ((u, ym) # rest) total_records conn =
     (case process_monthly_file_bulk w conn ym u of
        Inl e \<Rightarrow> Inl e
      | Inr (conn1, None) \<Rightarrow> bulk_loop w now rest total_records conn1
      | Inr (conn1, Some (n, ds)) \<Rightarrow>
          (if ds \<noteq> []
           then (case log_dates now u n ds conn1 of
                   Inl e \<Rightarrow> Inl e
                 | Inr conn2 \<Rightarrow> bulk_loop w now rest (total_records + n) conn2)
           else bulk_loop w now rest total_records conn1))"

text \<open>
  \<^verbatim>\<open>main\<close> between the download of the DuckDB file and its upload: \<open>today\<close> is
  \<^verbatim>\<open>date.today()\<close>. The file is uploaded only when no exception was raised.
\<close>

definition main_bulk :: "web \<Rightarrow> clock \<Rightarrow> cal_date \<Rightarrow> duckdb \<Rightarrow> error + (duckdb \<times> int)" where
  "main_bulk w now today conn =
     bulk_loop w now (generate_month_urls (2022, 1, 1) today) 0
       (create_log_table (create_price_table conn))"

section \<open>Incremental load: \<^verbatim>\<open>inc_load_price.py\<close>\<close>

text \<open>\<^verbatim>\<open>SELECT MAX(processed_date) FROM data_processing_log\<close> on the rows of the table.\<close>

definition max_processed_date :: "log_entry list \<Rightarrow> cal_date option" where
  "max_processed_date es =
     (case es of
        [] \<Rightarrow> None
      | e # es' \<Rightarrow> Some (fold (\<lambda>x m. max (processed_date x) m) es' (processed_date e)))"

text \<open>
  \<^verbatim>\<open>get_last_processed_date\<close>: the query raises when the table is not there, and the
  handler creates the table. The result is given as the date \<^verbatim>\<open>main\<close> turns it into.
\<close>

definition get_last_processed_date :: "duckdb \<Rightarrow> cal_date \<times> duckdb" where
  "get_last_processed_date conn =
     (case data_processing_log conn of
        Some es \<Rightarrow>
          (case max_processed_date es of
             Some d \<Rightarrow> (d, conn)
           | None \<Rightarrow> ((2022, 1, 1), conn))
      | None \<Rightarrow> ((2022, 1, 1), create_log_table conn))"

text \<open>
  \<^verbatim>\<open>process_monthly_file\<close> of the incremental load: 0 when the month is not published.
  For a file that was fetched the result is \<^verbatim>\<open>.row_count\<close> of what \<^verbatim>\<open>conn.execute\<close>
  returned, read once the insert has run.
\<close>

definition process_monthly_file_inc ::
  "web \<Rightarrow> duckdb \<Rightarrow> cal_date \<Rightarrow> string \<Rightarrow> error + (duckdb \<times> int)" where
  "process_monthly_file_inc w conn d u =
     (case download_parquet w u of
        Inl e \<Rightarrow> Inl e
      | Inr None \<Rightarrow> Inr (conn, 0)
      | Inr (Some f) \<Rightarrow>
          (case read_parquet f of
             Inl e \<Rightarrow> Inl e
           | Inr temp_price \<Rightarrow>
               (case price_tbl conn of
                  None \<Rightarrow> Inl CatalogError
                | Some tbl \<Rightarrow>
                    (case merge_inc d temp_price tbl of
                       Inl e \<Rightarrow> Inl e
                     | Inr (tbl', n) \<Rightarrow>
                         (case row_count (conn\<lparr>price_tbl := Some tbl'\<rparr>) of
                            Inl e \<Rightarrow> Inl e
                          | Inr k \<Rightarrow> Inr (conn\<lparr>price_tbl := Some tbl'\<rparr>, k))))))"

text \<open>
  A bound on the days the loop below still has to visit; it falls with every
  \<open>next_day\<close>, whatever triple the loop is started on.
\<close>

definition loop_bound :: "cal_date \<Rightarrow> cal_date \<Rightarrow> nat" where
  "loop_bound c d = ((Suc (fst c) - fst d) * 13 + (12 - fst (snd d))) * 32 + (31 - snd (snd d))"

text \<open>
  \<^verbatim>\<open>while date <= current_date\<close>. The first component lists the days for which
  \<^verbatim>\<open>process_monthly_file\<close> was called (its \<^verbatim>\<open>Processing data for ...\<close> lines), the
  second is the connection at the end or the exception that left the loop.
\<close>

function inc_loop ::
  "web \<Rightarrow> clock \<Rightarrow> cal_date \<Rightarrow> cal_date \<Rightarrow> duckdb \<Rightarrow> cal_date list \<times> (error + duckdb)" where
  "inc_loop w now current_date d conn =
     (if d \<le> current_date
      then (case process_monthly_file_inc w conn d (snapshot_url d) of
              Inl e \<Rightarrow> ([d], Inl e)
            | Inr (conn1, n) \<Rightarrow>
                (case (if n > 0 then log_progress now d (snapshot_url d) n conn1 else Inr conn1) of
                   Inl e \<Rightarrow> ([d], Inl e)
                 | Inr conn2 \<Rightarrow>
                     (case inc_loop w now current_date (next_day d) conn2 of
                        (ds, r) \<Rightarrow> (d # ds, r))))
      else ([], Inr conn))"
  by pat_completeness auto
termination
proof -
  have nb: "loop_bound c (next_day d) < loop_bound c d" if le: "d \<le> c" for d c :: cal_date
  proof -
    obtain y m dd where d: "d = (y, m, dd)" by (cases d) auto
    obtain cy cm cd where c: "c = (cy, cm, cd)" by (cases c) auto
    from le have yle: "y \<le> cy" by (auto simp: d c less_eq_prod_def)
    have dim: "days_in_month y m \<le> 31" by (simp add: days_in_month_def)
    show ?thesis
    proof (cases "dd < days_in_month y m")
      case True
      with dim show ?thesis by (simp add: next_day_def loop_bound_def d c)
    next
      case False
      show ?thesis
      proof (cases "m < 12")
        case True
        with False yle show ?thesis by (simp add: next_day_def loop_bound_def d c)
      next
        case F2: False
        with False yle show ?thesis by (simp add: next_day_def loop_bound_def d c Suc_diff_le)
      qed
    qed
  qed
  show ?thesis
    by (relation "measure (\<lambda>(w, now, c, d, conn). loop_bound c d)") (simp_all add: nb)
qed

declare inc_loop.simps [simp del]

definition main_inc :: "web \<Rightarrow> clock \<Rightarrow> cal_date \<Rightarrow> duckdb \<Rightarrow> cal_date list \<times> (error + duckdb)" where
  "main_inc w now today conn =
     (case get_last_processed_date (create_price_table conn) of
        (last_date, conn1) \<Rightarrow> inc_loop w now today last_date conn1)"

section \<open>One-off load: \<^verbatim>\<open>load_transactions.py\<close>\<close>

text \<open>
  Its \<^verbatim>\<open>download_parquet\<close> has no handler: every HTTP error status raises. Its \<^verbatim>\<open>main\<close>
  creates \<^verbatim>\<open>price\<close> without a key when it is not there and inserts the whole file.
\<close>

definition download_parquet_lt :: "web \<Rightarrow> string \<Rightarrow> error + payload" where
  "download_parquet_lt w u =
     (case w u of
        Content f \<Rightarrow> Inr f
      | NotFound404 \<Rightarrow> Inl HTTPError
      | HTTPFailure \<Rightarrow> Inl HTTPError)"

definition create_price_table_lt :: "duckdb \<Rightarrow> duckdb" where
  "create_price_table_lt conn =
     (case price_tbl conn of
        None \<Rightarrow> conn\<lparr>price_tbl := Some \<lparr>primary_key = False, rows = []\<rparr>\<rparr>
      | Some t \<Rightarrow> conn)"

definition main_load_transactions :: "web \<Rightarrow> duckdb \<Rightarrow> error + duckdb" where
  "main_load_transactions w conn =
     (case download_parquet_lt w
             ''https://storage.data.gov.my/pricecatcher/pricecatcher_2022-02.parquet'' of
        Inl e \<Rightarrow> Inl e
      | Inr f \<Rightarrow>
          (case price_tbl (create_price_table_lt conn) of
             None \<Rightarrow> Inl CatalogError
           | Some tbl \<Rightarrow>
               (case read_parquet f of
                  Inl e \<Rightarrow> Inl e
                | Inr rs \<Rightarrow>
                    (case insert_into_price tbl rs of
                       Inl e \<Rightarrow> Inl e
                     | Inr tbl' \<Rightarrow> Inr (conn\<lparr>price_tbl := Some tbl'\<rparr>)))))"

section \<open>Notions of the specification\<close>

text \<open>
  The table once a merge statement has run: a statement that raised has stored nothing.
\<close>

definition table_after :: "price_table \<Rightarrow> error + (price_table \<times> nat) \<Rightarrow> price_table" where
  "table_after S r = (case r of Inl e \<Rightarrow> S | Inr (S', n) \<Rightarrow> S')"

text \<open>
  The counts of the row-count property: the rows of a batch once duplicates by key are
  removed, and those of them whose key the table already holds.
\<close>

definition n_distinct :: "price_row list \<Rightarrow> nat" where
  "n_distinct B = length (remdups (map ident B))"

definition m_present :: "price_row list \<Rightarrow> price_row list \<Rightarrow> nat" where
  "m_present B xs = length (filter (\<lambda>k. k \<in> ident ` set xs) (remdups (map ident B)))"

text \<open>The ledger entry of a date, and the ledger after the statements for a list of dates.\<close>

definition lookup_log :: "log_entry list \<Rightarrow> cal_date \<Rightarrow> log_entry option" where
  "lookup_log es d = find (\<lambda>e. processed_date e = d) es"

definition logged :: "clock \<Rightarrow> string \<Rightarrow> int \<Rightarrow> cal_date list \<Rightarrow> log_entry list \<Rightarrow> log_entry list" where
  "logged now u n ds es = fold (\<lambda>d. upsert_log d (now u d) u n) ds es"




section \<open>Sample data\<close>

text \<open>Rows, tables, ledgers and snapshot servers for the concrete runs below.\<close>

definition row_a :: price_row where
  "row_a = \<lparr>date = (2022, 1, 1), premise_code = ''P1'', item_code = ''I1'', price = 120\<rparr>"

definition row_b :: price_row where
  "row_b = \<lparr>date = (2022, 1, 1), premise_code = ''P2'', item_code = ''I1'', price = 150\<rparr>"

definition empty_price :: price_table where
  "empty_price = \<lparr>primary_key = True, rows = []\<rparr>"

definition row_a2 :: price_row where
  "row_a2 = \<lparr>date = (2022, 1, 1), premise_code = ''P1'', item_code = ''I1'', price = 130\<rparr>"

definition clash_web :: web where
  "clash_web = (\<lambda>u. Content (Parquet [row_a, row_a2]))"

definition fresh_conn :: duckdb where
  "fresh_conn = \<lparr>price_tbl = Some empty_price, data_processing_log = Some []\<rparr>"

definition old_entry :: log_entry where
  "old_entry = \<lparr>processed_date = (2022, 1, 1), processed_at = 5,
                 file_url = ''old'', records_loaded = 7\<rparr>"

definition other_entry :: log_entry where
  "other_entry = \<lparr>processed_date = (2021, 12, 31), processed_at = 4,
                 file_url = ''older'', records_loaded = 2\<rparr>"

definition conn_none :: duckdb where
  "conn_none = \<lparr>price_tbl = Some empty_price, data_processing_log = None\<rparr>"

definition row_apr :: price_row where
  "row_apr = \<lparr>date = (2022, 4, 2), premise_code = ''P1'', item_code = ''I1'', price = 125\<rparr>"

definition url_2022_03 :: string where
  "url_2022_03 = ''https://storage.data.gov.my/pricecatcher/pricecatcher_2022-03.parquet''"

definition url_2022_04 :: string where
  "url_2022_04 = ''https://storage.data.gov.my/pricecatcher/pricecatcher_2022-04.parquet''"

definition web_no_march :: web where
  "web_no_march = (\<lambda>u. if u = url_2022_03 then NotFound404 else Content (Parquet [row_apr]))"

definition row_apr3 :: price_row where
  "row_apr3 = \<lparr>date = (2022, 4, 3), premise_code = ''P1'', item_code = ''I1'', price = 126\<rparr>"

definition row_apr2 :: price_row where
  "row_apr2 = \<lparr>date = (2022, 4, 2), premise_code = ''P2'', item_code = ''I1'', price = 99\<rparr>"

definition web_april :: web where
  "web_april = (\<lambda>u. Content (Parquet [row_apr3, row_apr, row_apr2]))"

definition url_2022_01 :: string where
  "url_2022_01 = ''https://storage.data.gov.my/pricecatcher/pricecatcher_2022-01.parquet''"


definition row_jan3 :: price_row where
  "row_jan3 = \<lparr>date = (2022, 1, 3), premise_code = ''P1'', item_code = ''I1'', price = 121\<rparr>"

definition web_jan :: web where
  "web_jan = (\<lambda>u. Content (Parquet [row_a, row_jan3, row_a, row_b]))"

definition row_feb :: price_row where
  "row_feb = \<lparr>date = (2022, 2, 1), premise_code = ''P1'', item_code = ''I1'', price = 120\<rparr>"

definition web_feb :: web where
  "web_feb = (\<lambda>u. Content (Parquet [row_feb]))"

definition no_tables :: duckdb where
  "no_tables = \<lparr>price_tbl = None, data_processing_log = None\<rparr>"

definition loaded_once :: duckdb where
  "loaded_once = \<lparr>price_tbl = Some \<lparr>primary_key = False, rows = [row_feb]\<rparr>,
                   data_processing_log = None\<rparr>"

definition loaded_twice :: duckdb where
  "loaded_twice = \<lparr>price_tbl = Some \<lparr>primary_key = False, rows = [row_feb, row_feb]\<rparr>,
                    data_processing_log = None\<rparr>"

section \<open>Properties of the merge\<close>

lemma same_key_iff:
  "(date x = date t \<and> premise_code x = premise_code t \<and> item_code x = item_code t)
     \<longleftrightarrow> ident x = ident t"
  by (simp add: ident_def)

lemma new_records_keys:
  "set (new_records B xs) = {t \<in> set B. ident t \<notin> ident ` set xs}"
  by (auto simp: new_records_def same_key_iff image_iff)

lemma new_records_on_keys:
  "set (new_records_on d B xs) = {t \<in> set B. date t = d \<and> ident t \<notin> ident ` set xs}"
  by (auto simp: new_records_on_def same_key_iff image_iff)

lemma new_records_again: "new_records B (xs @ new_records B xs) = []"
proof -
  have "set (new_records B (xs @ new_records B xs)) = {}"
    unfolding new_records_keys by (auto simp: new_records_keys)
  then show ?thesis by simp
qed

lemma new_records_on_again: "new_records_on d B (xs @ new_records_on d B xs) = []"
proof -
  have "set (new_records_on d B (xs @ new_records_on d B xs)) = {}"
    unfolding new_records_on_keys by (auto simp: new_records_on_keys)
  then show ?thesis by simp
qed

lemma merge_bulk_again:
  "merge_bulk B S = Inr (S', n) \<Longrightarrow> merge_bulk B S' = Inr (S', 0)"
  by (auto simp: merge_bulk_def Let_def insert_into_price_def new_records_again
           split: if_splits)

lemma merge_inc_again:
  "merge_inc d B S = Inr (S', n) \<Longrightarrow> merge_inc d B S' = Inr (S', 0)"
  by (auto simp: merge_inc_def Let_def insert_into_price_def new_records_on_again
           split: if_splits)

lemma scenario_first:
  "merge_bulk [row_a, row_a, row_b] empty_price
     = Inr (\<lparr>primary_key = True, rows = [row_a, row_b]\<rparr>, 2)"
  by (simp add: merge_bulk_def new_records_def insert_into_price_def ident_def Let_def
        row_a_def row_b_def empty_price_def)

text \<open>
  C1 (idempotent merge). A merge that succeeded, run again on the table it left with the
  same staged rows, succeeds, leaves that table as it is and reports zero inserted rows;
  this holds for the statement of the backfill and for the one of the incremental load.
  For every batch and table, also where the statement raises, the table after two merges
  in a row is the table after one.
\<close>

theorem merge_idempotent:
  "(merge_bulk B S = Inr (S', n) \<longrightarrow> merge_bulk B S' = Inr (S', 0)) \<and>
   (merge_inc d B S = Inr (S', n) \<longrightarrow> merge_inc d B S' = Inr (S', 0)) \<and>
   table_after (table_after S (merge_bulk B S)) (merge_bulk B (table_after S (merge_bulk B S)))
     = table_after S (merge_bulk B S) \<and>
   table_after (table_after S (merge_inc d B S)) (merge_inc d B (table_after S (merge_inc d B S)))
     = table_after S (merge_inc d B S)"
proof (intro conjI impI)
  show "merge_bulk B S = Inr (S', n) \<Longrightarrow> merge_bulk B S' = Inr (S', 0)"
    by (rule merge_bulk_again)
  show "merge_inc d B S = Inr (S', n) \<Longrightarrow> merge_inc d B S' = Inr (S', 0)"
    by (rule merge_inc_again)
  show "table_after (table_after S (merge_bulk B S)) (merge_bulk B (table_after S (merge_bulk B S)))
     = table_after S (merge_bulk B S)"
  proof (cases "merge_bulk B S")
    case (Inl e)
    then show ?thesis by (simp add: table_after_def)
  next
    case (Inr p)
    obtain S1 k where p: "p = (S1, k)" by (cases p) auto
    with Inr merge_bulk_again[of B S S1 k] show ?thesis by (simp add: table_after_def)
  qed
  show "table_after (table_after S (merge_inc d B S)) (merge_inc d B (table_after S (merge_inc d B S)))
     = table_after S (merge_inc d B S)"
  proof (cases "merge_inc d B S")
    case (Inl e)
    then show ?thesis by (simp add: table_after_def)
  next
    case (Inr p)
    obtain S1 k where p: "p = (S1, k)" by (cases p) auto
    with Inr merge_inc_again[of d B S S1 k] show ?thesis by (simp add: table_after_def)
  qed
qed

theorem merge_idempotent_witness:
  "merge_bulk [row_a, row_a, row_b] empty_price
     = Inr (\<lparr>primary_key = True, rows = [row_a, row_b]\<rparr>, 2) \<and>
   merge_bulk [row_a, row_a, row_b] \<lparr>primary_key = True, rows = [row_a, row_b]\<rparr>
     = Inr (\<lparr>primary_key = True, rows = [row_a, row_b]\<rparr>, 0)"
proof -
  have first: "merge_bulk [row_a, row_a, row_b] empty_price
     = Inr (\<lparr>primary_key = True, rows = [row_a, row_b]\<rparr>, 2)"
    by (rule scenario_first)
  from merge_idempotent[THEN conjunct1, rule_format, OF first] first show ?thesis by simp
qed

section \<open>The number of inserted rows\<close>

lemma insert_ok_distinct:
  "primary_key S \<Longrightarrow> insert_into_price S new = Inr S' \<Longrightarrow> distinct (map ident new)"
  by (auto simp: insert_into_price_def split: if_splits)

lemma merge_bulk_result:
  "merge_bulk B S = Inr (S', n) \<Longrightarrow>
     insert_into_price S (new_records B (rows S)) = Inr S' \<and> n = length (new_records B (rows S))"
  by (auto simp: merge_bulk_def Let_def split: sum.splits)

lemma merge_inc_result:
  "merge_inc d B S = Inr (S', n) \<Longrightarrow>
     insert_into_price S (new_records_on d B (rows S)) = Inr S' \<and>
     n = length (new_records_on d B (rows S))"
  by (auto simp: merge_inc_def Let_def split: sum.splits)

lemma new_keys_length:
  assumes "distinct (map ident (new_records B xs))"
  shows "length (new_records B xs)
           = length (filter (\<lambda>k. k \<notin> ident ` set xs) (remdups (map ident B)))"
proof -
  have "set (map ident (new_records B xs))
          = set (filter (\<lambda>k. k \<notin> ident ` set xs) (remdups (map ident B)))"
    by (simp add: new_records_keys) (force simp: image_iff)
  moreover have "distinct (filter (\<lambda>k. k \<notin> ident ` set xs) (remdups (map ident B)))"
    by simp
  ultimately have "length (map ident (new_records B xs))
          = length (filter (\<lambda>k. k \<notin> ident ` set xs) (remdups (map ident B)))"
    using assms by (metis distinct_card)
  then show ?thesis by simp
qed

lemma same_key_same_row:
  "ident t1 = ident t2 \<Longrightarrow> price t1 = price t2 \<Longrightarrow> t1 = t2" for t1 t2 :: price_row
  by (cases t1, cases t2) (simp add: ident_def)

lemma new_records_distinct_keys:
  assumes "\<forall>t1 \<in> set B. \<forall>t2 \<in> set B.
             ident t1 = ident t2 \<and> ident t1 \<notin> ident ` set xs \<longrightarrow> price t1 = price t2"
  shows "distinct (map ident (new_records B xs))"
proof -
  have "inj_on ident (set (new_records B xs))"
  proof (rule inj_onI)
    fix t1 t2
    assume "t1 \<in> set (new_records B xs)" "t2 \<in> set (new_records B xs)" "ident t1 = ident t2"
    then have m: "t1 \<in> set B" "t2 \<in> set B" "ident t1 \<notin> ident ` set xs"
      and e: "ident t1 = ident t2"
      by (simp_all add: new_records_keys)
    from assms m e have "price t1 = price t2" by blast
    with e show "t1 = t2" by (rule same_key_same_row)
  qed
  moreover have "distinct (new_records B xs)" by (simp add: new_records_def)
  ultimately show ?thesis by (simp add: distinct_map)
qed

text \<open>
  C3 (row count), as amended. Take a batch in which no two rows of one key that is not yet
  stored differ in price. Then, on every table, the merge of the backfill succeeds, appends
  the rows of \<open>new_records\<close> and nothing else, and inserts exactly
  \<open>n_distinct B - m_present B (rows S)\<close> rows: the number of distinct keys of the batch
  less the number of those already stored.
\<close>

theorem merge_row_count:
  assumes "\<forall>t1 \<in> set B. \<forall>t2 \<in> set B.
             ident t1 = ident t2 \<and> ident t1 \<notin> ident ` set (rows S) \<longrightarrow> price t1 = price t2"
  shows "merge_bulk B S
           = Inr (S\<lparr>rows := rows S @ new_records B (rows S)\<rparr>,
                  n_distinct B - m_present B (rows S)) \<and>
         length (new_records B (rows S)) + m_present B (rows S) = n_distinct B \<and>
         set (new_records B (rows S)) = {t \<in> set B. ident t \<notin> ident ` set (rows S)}"
proof -
  let ?new = "new_records B (rows S)"
  have d: "distinct (map ident ?new)" by (rule new_records_distinct_keys[OF assms])
  have k: "\<forall>n \<in> set ?new. ident n \<notin> ident ` set (rows S)"
    by (simp add: new_records_keys)
  from d k have ins: "insert_into_price S ?new = Inr (S\<lparr>rows := rows S @ ?new\<rparr>)"
    by (simp add: insert_into_price_def)
  have "length ?new
          = length (filter (\<lambda>k. k \<notin> ident ` set (rows S)) (remdups (map ident B)))"
    by (rule new_keys_length[OF d])
  moreover have "length (filter (\<lambda>k. k \<in> ident ` set (rows S)) (remdups (map ident B)))
        + length (filter (\<lambda>k. k \<notin> ident ` set (rows S)) (remdups (map ident B)))
        = length (remdups (map ident B))"
    by (rule sum_length_filter_compl)
  ultimately have cnt: "length ?new + m_present B (rows S) = n_distinct B"
    by (simp add: m_present_def n_distinct_def)
  then have "length ?new = n_distinct B - m_present B (rows S)" by simp
  with ins cnt show ?thesis by (simp add: merge_bulk_def Let_def new_records_keys)
qed

theorem merge_row_count_witness:
  "merge_bulk [row_a, row_a, row_b] \<lparr>primary_key = True, rows = [row_a]\<rparr>
     = Inr (\<lparr>primary_key = True, rows = [row_a, row_b]\<rparr>, 1) \<and>
   n_distinct [row_a, row_a, row_b] = 2 \<and>
   m_present [row_a, row_a, row_b] [row_a] = 1"
proof -
  have h: "\<forall>t1 \<in> set [row_a, row_a, row_b]. \<forall>t2 \<in> set [row_a, row_a, row_b].
             ident t1 = ident t2 \<and>
             ident t1 \<notin> ident ` set (rows \<lparr>primary_key = True, rows = [row_a]\<rparr>)
             \<longrightarrow> price t1 = price t2"
    by (simp add: ident_def row_a_def row_b_def)
  have nd: "n_distinct [row_a, row_a, row_b] = 2"
    by (simp add: n_distinct_def ident_def row_a_def row_b_def)
  have mp: "m_present [row_a, row_a, row_b] [row_a] = 1"
    by (simp add: m_present_def ident_def row_a_def row_b_def)
  have nr: "new_records [row_a, row_a, row_b] [row_a] = [row_b]"
    by (simp add: new_records_def row_a_def row_b_def)
  from merge_row_count[OF h, THEN conjunct1] nd mp nr show ?thesis by simp
qed

text \<open>
  The claim as stated fails for a batch with one key at two prices: one row is promised,
  the statement raises and inserts none.
\<close>

theorem merge_row_count_counterexample:
  "merge_bulk [row_a, row_a2] empty_price = Inl ConstraintError \<and>
   n_distinct [row_a, row_a2] - m_present [row_a, row_a2] (rows empty_price) = 1"
  by (simp add: merge_bulk_def new_records_def insert_into_price_def ident_def Let_def
        n_distinct_def m_present_def row_a_def row_a2_def empty_price_def)

section \<open>Two rows of one key in a batch\<close>

lemma collision_not_distinct:
  assumes "t1 \<in> set new" "t2 \<in> set new" "ident t1 = ident t2" "t1 \<noteq> t2"
  shows "\<not> distinct (map ident new)"
proof
  assume "distinct (map ident new)"
  then have "inj_on ident (set new)" by (simp add: distinct_map)
  with assms show False by (auto dest: inj_onD)
qed

lemma insert_collision:
  assumes "primary_key S" "t1 \<in> set new" "t2 \<in> set new" "ident t1 = ident t2" "t1 \<noteq> t2"
  shows "insert_into_price S new = Inl ConstraintError"
  using collision_not_distinct[OF assms(2-5)] assms(1) by (simp add: insert_into_price_def)

lemma collision_merges:
  assumes "primary_key S"
    and "t1 \<in> set B" and "t2 \<in> set B"
    and "ident t1 = ident t2" and "price t1 \<noteq> price t2"
    and "ident t1 \<notin> ident ` set (rows S)"
  shows "t1 \<in> set (new_records B (rows S)) \<and> t2 \<in> set (new_records B (rows S)) \<and>
         merge_bulk B S = Inl ConstraintError \<and>
         merge_inc (date t1) B S = Inl ConstraintError"
proof -
  from assms(5) have ne: "t1 \<noteq> t2" by auto
  have in1: "t1 \<in> set (new_records B (rows S))" and in2: "t2 \<in> set (new_records B (rows S))"
    using assms by (simp_all add: new_records_keys)
  from assms(4) have "date t2 = date t1" by (simp add: ident_def)
  then have on1: "t1 \<in> set (new_records_on (date t1) B (rows S))"
    and on2: "t2 \<in> set (new_records_on (date t1) B (rows S))"
    using assms by (simp_all add: new_records_on_keys)
  have "merge_bulk B S = Inl ConstraintError"
    using insert_collision[OF assms(1) in1 in2 assms(4) ne] by (simp add: merge_bulk_def Let_def)
  moreover have "merge_inc (date t1) B S = Inl ConstraintError"
    using insert_collision[OF assms(1) on1 on2 assms(4) ne] by (simp add: merge_inc_def Let_def)
  ultimately show ?thesis using in1 in2 by simp
qed

text \<open>
  C10 (in-batch key collision). On a table that has its primary key, when the staged rows
  hold two rows with one key and different prices and the key is not stored yet, the
  \<^verbatim>\<open>DISTINCT\<close> of the merge keeps both rows and the insert raises the constraint error, in
  the backfill and, for the day of the rows, in the incremental load; the error leaves
  \<^verbatim>\<open>process_monthly_file\<close> and the loop of \<^verbatim>\<open>main\<close>, so no row of the batch is inserted.
\<close>

theorem collision_aborts:
  assumes "primary_key S"
    and "t1 \<in> set B" and "t2 \<in> set B"
    and "ident t1 = ident t2" and "price t1 \<noteq> price t2"
    and "ident t1 \<notin> ident ` set (rows S)"
    and "price_tbl conn = Some S"
    and "w u = Content (Parquet B)"
  shows "t1 \<in> set (new_records B (rows S)) \<and> t2 \<in> set (new_records B (rows S)) \<and>
         merge_bulk B S = Inl ConstraintError \<and>
         merge_inc (date t1) B S = Inl ConstraintError \<and>
         process_monthly_file_bulk w conn ym u = Inl ConstraintError \<and>
         bulk_loop w now ((u, ym) # rest) tot conn = Inl ConstraintError \<and>
         process_monthly_file_inc w conn (date t1) u = Inl ConstraintError \<and>
         (u = snapshot_url (date t1) \<and> date t1 \<le> today \<longrightarrow>
            inc_loop w now today (date t1) conn = ([date t1], Inl ConstraintError))"
proof -
  note m = collision_merges[OF assms(1-6)]
  have pb: "process_monthly_file_bulk w conn ym u = Inl ConstraintError"
    using m assms(7,8)
    by (simp add: process_monthly_file_bulk_def download_parquet_def read_parquet_def)
  have pi: "process_monthly_file_inc w conn (date t1) u = Inl ConstraintError"
    using m assms(7,8)
    by (simp add: process_monthly_file_inc_def download_parquet_def read_parquet_def)
  have bl: "bulk_loop w now ((u, ym) # rest) tot conn = Inl ConstraintError"
    using pb by simp
  have il: "u = snapshot_url (date t1) \<and> date t1 \<le> today \<longrightarrow>
            inc_loop w now today (date t1) conn = ([date t1], Inl ConstraintError)"
    using pi by (auto simp: inc_loop.simps[of w now today "date t1" conn])
  from m pb pi bl il show ?thesis by blast
qed

theorem collision_aborts_witness:
  "merge_bulk [row_a, row_a2] empty_price = Inl ConstraintError \<and>
   merge_inc (2022, 1, 1) [row_a, row_a2] empty_price = Inl ConstraintError \<and>
   bulk_loop clash_web (\<lambda>u d. 0) [(''u'', ''2022-01'')] 0 fresh_conn = Inl ConstraintError \<and>
   inc_loop clash_web (\<lambda>u d. 0) (2022, 1, 3) (2022, 1, 1) fresh_conn
     = ([(2022, 1, 1)], Inl ConstraintError)"
proof -
  have le: "((2022, 1, 1) :: cal_date) \<le> (2022, 1, 3)" by simp
  have "primary_key empty_price" "row_a \<in> set [row_a, row_a2]" "row_a2 \<in> set [row_a, row_a2]"
    "ident row_a = ident row_a2" "price row_a \<noteq> price row_a2"
    "ident row_a \<notin> ident ` set (rows empty_price)"
    "price_tbl fresh_conn = Some empty_price"
    by (simp_all add: empty_price_def ident_def row_a_def row_a2_def fresh_conn_def)
  note h = this
  have d: "date row_a = (2022, 1, 1)" by (simp add: row_a_def)
  have w1: "clash_web ''u'' = Content (Parquet [row_a, row_a2])"
    and w2: "clash_web (snapshot_url (date row_a)) = Content (Parquet [row_a, row_a2])"
    by (simp_all add: clash_web_def)
  from collision_aborts[where w = clash_web and u = "''u''" and ym = "''2022-01''"
         and now = "\<lambda>u d. 0" and rest = "[]" and tot = 0 and today = "(2022, 1, 3)",
         OF h w1]
       collision_aborts[where w = clash_web and u = "snapshot_url (date row_a)"
         and ym = "''2022-01''" and now = "\<lambda>u d. 0" and rest = "[]" and tot = 0
         and today = "(2022, 1, 3)", OF h w2] le
  show ?thesis by (simp add: d)
qed

section \<open>The progress ledger\<close>

lemma upsert_log_skip:
  "\<forall>x \<in> set es1. processed_date x \<noteq> d \<Longrightarrow>
     upsert_log d ts u n (es1 @ es) = es1 @ upsert_log d ts u n es"
  by (induction es1) auto

text \<open>
  C9 (frame of the ledger upsert). When the ledger already holds an entry for the date, the
  statement replaces the first such entry by itself with \<open>processed_at\<close> and
  \<open>records_loaded\<close> overwritten: \<open>processed_date\<close> and \<open>file_url\<close> keep their stored
  values (the URL passed in is not written), and every other entry stays as it is, in
  place. The statement is the same in the backfill and in the incremental load.
\<close>

theorem upsert_frame:
  assumes "processed_date e = d" and "\<forall>x \<in> set es1. processed_date x \<noteq> d"
  shows "upsert_log d ts u n (es1 @ e # es2)
           = es1 @ e\<lparr>processed_at := ts, records_loaded := n\<rparr> # es2 \<and>
         processed_date (e\<lparr>processed_at := ts, records_loaded := n\<rparr>) = processed_date e \<and>
         file_url (e\<lparr>processed_at := ts, records_loaded := n\<rparr>) = file_url e \<and>
         processed_at (e\<lparr>processed_at := ts, records_loaded := n\<rparr>) = ts \<and>
         records_loaded (e\<lparr>processed_at := ts, records_loaded := n\<rparr>) = n \<and>
         (data_processing_log conn = Some (es1 @ e # es2) \<longrightarrow>
            log_progress now d u n conn
              = Inr (conn\<lparr>data_processing_log :=
                      Some (es1 @ e\<lparr>processed_at := now u d, records_loaded := n\<rparr> # es2)\<rparr>))"
proof -
  have *: "\<And>ts. upsert_log d ts u n (es1 @ e # es2)
           = es1 @ e\<lparr>processed_at := ts, records_loaded := n\<rparr> # es2"
    using assms by (simp add: upsert_log_skip)
  then show ?thesis by (simp add: log_progress_def)
qed

theorem upsert_frame_witness:
  "upsert_log (2022, 1, 1) 9 ''new'' 3 [other_entry, old_entry]
     = [other_entry,
        \<lparr>processed_date = (2022, 1, 1), processed_at = 9, file_url = ''old'', records_loaded = 3\<rparr>]"
proof -
  have a: "processed_date old_entry = (2022, 1, 1)" by (simp add: old_entry_def)
  have b: "\<forall>x \<in> set [other_entry]. processed_date x \<noteq> (2022, 1, 1)"
    by (simp add: other_entry_def)
  from upsert_frame[OF a b, of 9 "''new''" 3 "[]"] show ?thesis
    by (simp add: old_entry_def)
qed

lemma upsert_has_entry:
  "d \<in> processed_date ` set es \<Longrightarrow>
     \<exists>es1 e es2. es = es1 @ e # es2 \<and> processed_date e = d \<and>
                 (\<forall>x \<in> set es1. processed_date x \<noteq> d)"
proof -
  assume "d \<in> processed_date ` set es"
  then have "\<exists>x \<in> set es. processed_date x = d" by auto
  then obtain es1 e es2 where "es = es1 @ e # es2" "processed_date e = d"
      "\<forall>x \<in> set es1. \<not> processed_date x = d"
    by (auto simp: split_list_first_prop_iff)
  then show ?thesis by blast
qed

lemma max_processed_date_Max:
  "es \<noteq> [] \<Longrightarrow> max_processed_date es = Some (Max (processed_date ` set es))"
proof (cases es)
  case Nil
  assume "es \<noteq> []" with Nil show ?thesis by simp
next
  case (Cons e es')
  have "fold (\<lambda>x m. max (processed_date x) m) es' (processed_date e)
          = fold max (map processed_date es') (processed_date e)"
    by (simp add: fold_map comp_def)
  also have "\<dots> = Max (set (processed_date e # map processed_date es'))"
    by (simp only: Max.set_eq_fold)
  finally show ?thesis using Cons by (simp add: max_processed_date_def)
qed

text \<open>
  C6 (last processed date). \<^verbatim>\<open>get_last_processed_date\<close> returns the greatest
  \<open>processed_date\<close> of the ledger when it has entries, 2022-01-01 when the table is empty,
  and, when the table does not exist (the query raises), creates the empty table and returns
  2022-01-01. It always returns: no exception leaves it.
\<close>

theorem last_processed_date:
  "(data_processing_log conn = Some es \<and> es \<noteq> [] \<longrightarrow>
      get_last_processed_date conn = (Max (processed_date ` set es), conn)) \<and>
   (data_processing_log conn = Some [] \<longrightarrow>
      get_last_processed_date conn = ((2022, 1, 1), conn)) \<and>
   (data_processing_log conn = None \<longrightarrow>
      get_last_processed_date conn = ((2022, 1, 1), conn\<lparr>data_processing_log := Some []\<rparr>))"
proof (intro conjI impI)
  assume "data_processing_log conn = Some es \<and> es \<noteq> []"
  then show "get_last_processed_date conn = (Max (processed_date ` set es), conn)"
    by (simp add: get_last_processed_date_def max_processed_date_Max)
next
  assume "data_processing_log conn = Some []"
  then show "get_last_processed_date conn = ((2022, 1, 1), conn)"
    by (simp add: get_last_processed_date_def max_processed_date_def)
next
  assume "data_processing_log conn = None"
  then show "get_last_processed_date conn
               = ((2022, 1, 1), conn\<lparr>data_processing_log := Some []\<rparr>)"
    by (simp add: get_last_processed_date_def create_log_table_def)
qed

theorem last_processed_date_witness:
  "get_last_processed_date (fresh_conn\<lparr>data_processing_log := Some [old_entry, other_entry]\<rparr>)
     = ((2022, 1, 1), fresh_conn\<lparr>data_processing_log := Some [old_entry, other_entry]\<rparr>) \<and>
   get_last_processed_date fresh_conn = ((2022, 1, 1), fresh_conn) \<and>
   get_last_processed_date conn_none = ((2022, 1, 1), conn_none\<lparr>data_processing_log := Some []\<rparr>)"
proof -
  have a: "data_processing_log (fresh_conn\<lparr>data_processing_log := Some [old_entry, other_entry]\<rparr>)
             = Some [old_entry, other_entry] \<and> [old_entry, other_entry] \<noteq> []" by simp
  have b: "data_processing_log fresh_conn = Some []" by (simp add: fresh_conn_def)
  have c: "data_processing_log conn_none = None" by (simp add: conn_none_def)
  have m: "Max (processed_date ` set [old_entry, other_entry]) = (2022, 1, 1)"
    by (simp add: old_entry_def other_entry_def)
  from last_processed_date[THEN conjunct1, rule_format, OF a]
       last_processed_date[THEN conjunct2, THEN conjunct1, rule_format, OF b]
       last_processed_date[THEN conjunct2, THEN conjunct2, rule_format, OF c] m
  show ?thesis by simp
qed

section \<open>A month that is not published\<close>

text \<open>
  C5 (missing period). When the snapshot address answers 404, \<^verbatim>\<open>process_monthly_file\<close>
  returns without an exception and leaves the connection as it was (both tables, so no
  ledger entry is written): \<^verbatim>\<open>None\<close> in the backfill, whose loop goes on with the months
  that remain, and 0 in the incremental load, whose loop goes on with the next day.
\<close>

theorem not_found_skipped:
  assumes "w u = NotFound404"
  shows "process_monthly_file_bulk w conn ym u = Inr (conn, None) \<and>
         bulk_loop w now ((u, ym) # rest) tot conn = bulk_loop w now rest tot conn \<and>
         process_monthly_file_inc w conn d u = Inr (conn, 0) \<and>
         (u = snapshot_url d \<and> d \<le> today \<longrightarrow>
            inc_loop w now today d conn
              = (case inc_loop w now today (next_day d) conn of (ds, r) \<Rightarrow> (d # ds, r)))"
proof -
  have pb: "process_monthly_file_bulk w conn ym u = Inr (conn, None)"
    using assms by (simp add: process_monthly_file_bulk_def download_parquet_def)
  have pi: "process_monthly_file_inc w conn d u = Inr (conn, 0)"
    using assms by (simp add: process_monthly_file_inc_def download_parquet_def)
  have bl: "bulk_loop w now ((u, ym) # rest) tot conn = bulk_loop w now rest tot conn"
    using pb by simp
  have il: "u = snapshot_url d \<and> d \<le> today \<longrightarrow>
            inc_loop w now today d conn
              = (case inc_loop w now today (next_day d) conn of (ds, r) \<Rightarrow> (d # ds, r))"
    using pi by (auto simp: inc_loop.simps[of w now today d conn])
  from pb pi bl il show ?thesis by blast
qed

lemma url_march: "snapshot_url (2022, 3, 1) = url_2022_03"
  by (simp add: snapshot_url_def strftime_Ym_def digit_def url_2022_03_def)

lemma url_april: "snapshot_url (2022, 4, 1) = url_2022_04"
  by (simp add: snapshot_url_def strftime_Ym_def digit_def url_2022_04_def)

lemma april_found: "web_no_march url_2022_04 = Content (Parquet [row_apr])"
  by (simp add: web_no_march_def url_2022_03_def url_2022_04_def)

lemma april_merge:
  "merge_bulk [row_apr] empty_price = Inr (\<lparr>primary_key = True, rows = [row_apr]\<rparr>, 1)"
  by (simp add: merge_bulk_def new_records_def insert_into_price_def Let_def empty_price_def)

lemma april_file:
  "process_monthly_file_bulk web_no_march fresh_conn ''2022-04'' url_2022_04
     = Inr (fresh_conn\<lparr>price_tbl := Some \<lparr>primary_key = True, rows = [row_apr]\<rparr>\<rparr>,
            Some (- 1, [(2022, 4, 2)]))"
proof -
  have "price_tbl fresh_conn = Some empty_price" by (simp add: fresh_conn_def)
  moreover have "sort (remdups (map date [row_apr])) = [(2022, 4, 2)]"
    by (simp add: row_apr_def)
  ultimately show ?thesis
    by (simp add: process_monthly_file_bulk_def download_parquet_def read_parquet_def
          april_found april_merge rowcount_def)
qed

lemma april_run:
  "bulk_loop web_no_march (\<lambda>u d. 9) [(url_2022_04, ''2022-04'')] 0 fresh_conn
   = Inr (\<lparr>price_tbl = Some \<lparr>primary_key = True, rows = [row_apr]\<rparr>,
           data_processing_log = Some [\<lparr>processed_date = (2022, 4, 2), processed_at = 9,
              file_url = url_2022_04, records_loaded = - 1\<rparr>]\<rparr>, - 1)"
  by (simp add: april_file log_progress_def) (simp add: fresh_conn_def)

theorem not_found_skipped_witness:
  "web_no_march url_2022_03 = NotFound404 \<and>
   bulk_loop web_no_march (\<lambda>u d. 9)
     [(url_2022_03, ''2022-03''), (url_2022_04, ''2022-04'')] 0 fresh_conn
   = Inr (\<lparr>price_tbl = Some \<lparr>primary_key = True, rows = [row_apr]\<rparr>,
           data_processing_log = Some [\<lparr>processed_date = (2022, 4, 2), processed_at = 9,
              file_url = url_2022_04, records_loaded = - 1\<rparr>]\<rparr>, - 1)"
proof -
  have h: "web_no_march url_2022_03 = NotFound404"
    by (simp add: web_no_march_def)
  from not_found_skipped[where w = web_no_march and u = url_2022_03 and conn = fresh_conn
         and now = "\<lambda>u d. 9" and ym = "''2022-03''"
         and rest = "[(url_2022_04, ''2022-04'')]" and tot = 0, OF h] h april_run
  show ?thesis by simp
qed

section \<open>Ledger writes of the backfill\<close>

lemma lookup_upsert:
  "lookup_log (upsert_log d ts u n es) d' =
     (if d' = d
      then Some (case lookup_log es d of
                   None \<Rightarrow> \<lparr>processed_date = d, processed_at = ts, file_url = u, records_loaded = n\<rparr>
                 | Some e \<Rightarrow> e\<lparr>processed_at := ts, records_loaded := n\<rparr>)
      else lookup_log es d')"
  by (induction es) (auto simp: lookup_log_def)

lemma keys_upsert:
  "map processed_date (upsert_log d ts u n es) =
     (if d \<in> set (map processed_date es) then map processed_date es
      else map processed_date es @ [d])"
  by (induction es) auto

lemma log_dates_logged:
  "data_processing_log conn = Some es \<Longrightarrow>
     log_dates now u n ds conn = Inr (conn\<lparr>data_processing_log := Some (logged now u n ds es)\<rparr>)"
proof (induction ds arbitrary: conn es)
  case Nil
  then show ?case by (simp add: logged_def)
next
  case (Cons d ds)
  let ?c = "conn\<lparr>data_processing_log := Some (upsert_log d (now u d) u n es)\<rparr>"
  have "data_processing_log ?c = Some (upsert_log d (now u d) u n es)" by simp
  from Cons.IH[OF this] Cons.prems show ?case
    by (simp add: log_progress_def logged_def)
qed

lemma lookup_logged:
  "distinct ds \<Longrightarrow>
   lookup_log (logged now u n ds es) d =
     (if d \<in> set ds
      then Some (case lookup_log es d of
                   None \<Rightarrow> \<lparr>processed_date = d, processed_at = now u d, file_url = u,
                              records_loaded = n\<rparr>
                 | Some e \<Rightarrow> e\<lparr>processed_at := now u d, records_loaded := n\<rparr>)
      else lookup_log es d)"
proof (induction ds arbitrary: es)
  case Nil
  then show ?case by (simp add: logged_def)
next
  case (Cons a ds)
  have "logged now u n (a # ds) es = logged now u n ds (upsert_log a (now u a) u n es)"
    by (simp add: logged_def)
  with Cons show ?case by (auto simp: lookup_upsert)
qed

lemma keys_logged:
  "set (map processed_date (logged now u n ds es)) = set (map processed_date es) \<union> set ds \<and>
   (distinct (map processed_date es) \<longrightarrow> distinct (map processed_date (logged now u n ds es)))"
proof (induction ds arbitrary: es)
  case Nil
  then show ?case by (simp add: logged_def)
next
  case (Cons a ds)
  have st: "logged now u n (a # ds) es = logged now u n ds (upsert_log a (now u a) u n es)"
    by (simp add: logged_def)
  have k: "set (map processed_date (upsert_log a (now u a) u n es))
             = insert a (set (map processed_date es))"
    by (auto simp: keys_upsert)
  have d: "distinct (map processed_date es) \<longrightarrow>
             distinct (map processed_date (upsert_log a (now u a) u n es))"
    by (auto simp: keys_upsert)
  from Cons[of "upsert_log a (now u a) u n es"] k d show ?case
    unfolding st by auto
qed

lemma april_merge3:
  "merge_bulk [row_apr3, row_apr, row_apr2] empty_price
     = Inr (\<lparr>primary_key = True, rows = [row_apr3, row_apr, row_apr2]\<rparr>, 3)"
  by (simp add: merge_bulk_def new_records_def insert_into_price_def Let_def empty_price_def
        ident_def row_apr_def row_apr2_def row_apr3_def)

lemma april_dates:
  "sort (remdups (map date [row_apr3, row_apr, row_apr2])) = [(2022, 4, 2), (2022, 4, 3)]"
  by (simp add: row_apr_def row_apr2_def row_apr3_def)

text \<open>
  C8 (ledger writes of the backfill), at the inputs where the code breaks it: every month
  whose file was fetched, decoded and merged and holds a row. The loop runs the ledger
  statement once for each distinct date of the file and goes on with the next month:
  afterwards every one of these dates has its entry, all with the same \<open>records_loaded\<close>,
  the entries of all other dates are as before, and the dates of the ledger stay distinct.
  The value written is \<^verbatim>\<open>result.rowcount\<close>, that is -1, and not the number \<open>n\<close> of rows
  the month's merge inserted; \<^verbatim>\<open>total_records\<close> falls by one.
\<close>

theorem backfill_records_loaded:
  assumes "w u = Content (Parquet B)" and "B \<noteq> []"
    and "price_tbl conn = Some S"
    and "data_processing_log conn = Some es"
    and "merge_bulk B S = Inr (S', n)"
  shows "bulk_loop w now ((u, ym) # rest) tot conn
           = bulk_loop w now rest (tot + (- 1))
               (conn\<lparr>price_tbl := Some S',
                     data_processing_log :=
                       Some (logged now u (- 1) (sort (remdups (map date B))) es)\<rparr>) \<and>
         n = length (new_records B (rows S)) \<and> (- 1 :: int) \<noteq> int n \<and>
         distinct (sort (remdups (map date B))) \<and>
         set (sort (remdups (map date B))) = date ` set B \<and>
         (\<forall>d. lookup_log (logged now u (- 1) (sort (remdups (map date B))) es) d =
            (if d \<in> date ` set B
             then Some (case lookup_log es d of
                          None \<Rightarrow> \<lparr>processed_date = d, processed_at = now u d, file_url = u,
                                     records_loaded = - 1\<rparr>
                        | Some e \<Rightarrow> e\<lparr>processed_at := now u d, records_loaded := - 1\<rparr>)
             else lookup_log es d)) \<and>
         set (map processed_date (logged now u (- 1) (sort (remdups (map date B))) es))
           = set (map processed_date es) \<union> date ` set B \<and>
         (distinct (map processed_date es) \<longrightarrow>
            distinct (map processed_date (logged now u (- 1) (sort (remdups (map date B))) es)))"
proof -
  let ?ds = "sort (remdups (map date B))"
  let ?c1 = "conn\<lparr>price_tbl := Some S'\<rparr>"
  have dist: "distinct ?ds" and sds: "set ?ds = date ` set B" by simp_all
  have n: "n = length (new_records B (rows S))"
    using merge_bulk_result[OF assms(5)] by simp
  have pm: "process_monthly_file_bulk w conn ym u = Inr (?c1, Some (- 1, ?ds))"
    using assms
    by (simp add: process_monthly_file_bulk_def download_parquet_def read_parquet_def
          rowcount_def)
  have l1: "data_processing_log ?c1 = Some es" using assms(4) by simp
  have ne: "?ds \<noteq> []" using sds assms(2) by (metis image_is_empty set_empty)
  have step: "bulk_loop w now ((u, ym) # rest) tot conn
           = bulk_loop w now rest (tot + (- 1))
               (conn\<lparr>price_tbl := Some S',
                     data_processing_log := Some (logged now u (- 1) ?ds es)\<rparr>)"
    using ne pm log_dates_logged[OF l1, of now u "- 1" ?ds] by simp
  from step n dist sds lookup_logged[OF dist, of now u "- 1" es]
       keys_logged[of now u "- 1" ?ds es]
  show ?thesis by (simp only: sds) simp
qed

theorem backfill_records_loaded_witness:
  "merge_bulk [row_apr3, row_apr, row_apr2] empty_price
     = Inr (\<lparr>primary_key = True, rows = [row_apr3, row_apr, row_apr2]\<rparr>, 3) \<and>
   bulk_loop web_april (\<lambda>u d. 9) [(url_2022_04, ''2022-04'')] 0 fresh_conn
     = Inr (\<lparr>price_tbl = Some \<lparr>primary_key = True, rows = [row_apr3, row_apr, row_apr2]\<rparr>,
             data_processing_log = Some
               [\<lparr>processed_date = (2022, 4, 2), processed_at = 9, file_url = url_2022_04,
                  records_loaded = - 1\<rparr>,
                \<lparr>processed_date = (2022, 4, 3), processed_at = 9, file_url = url_2022_04,
                  records_loaded = - 1\<rparr>]\<rparr>, - 1)"
proof -
  have a: "web_april url_2022_04 = Content (Parquet [row_apr3, row_apr, row_apr2])"
    by (simp add: web_april_def)
  have ne: "[row_apr3, row_apr, row_apr2] \<noteq> []" by simp
  have b: "price_tbl fresh_conn = Some empty_price"
    and c: "data_processing_log fresh_conn = Some []"
    by (simp_all add: fresh_conn_def)
  note st = backfill_records_loaded[where w = web_april and u = url_2022_04
         and conn = fresh_conn and now = "\<lambda>u d. 9" and ym = "''2022-04''" and rest = "[]"
         and tot = 0, OF a ne b c april_merge3, THEN conjunct1, unfolded april_dates]
  have lg: "logged (\<lambda>u d. 9) url_2022_04 (- 1) [(2022, 4, 2), (2022, 4, 3)] []
     = [\<lparr>processed_date = (2022, 4, 2), processed_at = 9, file_url = url_2022_04,
          records_loaded = - 1\<rparr>,
        \<lparr>processed_date = (2022, 4, 3), processed_at = 9, file_url = url_2022_04,
          records_loaded = - 1\<rparr>]"
    by (simp add: logged_def)
  have run: "bulk_loop web_april (\<lambda>u d. 9) [(url_2022_04, ''2022-04'')] 0 fresh_conn
     = Inr (\<lparr>price_tbl = Some \<lparr>primary_key = True, rows = [row_apr3, row_apr, row_apr2]\<rparr>,
             data_processing_log = Some
               [\<lparr>processed_date = (2022, 4, 2), processed_at = 9, file_url = url_2022_04,
                  records_loaded = - 1\<rparr>,
                \<lparr>processed_date = (2022, 4, 3), processed_at = 9, file_url = url_2022_04,
                  records_loaded = - 1\<rparr>]\<rparr>, - 1)"
    by (subst st) (simp add: lg fresh_conn_def)
  with april_merge3 show ?thesis by simp
qed

section \<open>Months of the backfill\<close>












section \<open>Days of the incremental load\<close>

lemma date_less_iff:
  "((y, m, d) :: cal_date) < (y', m', d') \<longleftrightarrow>
     y < y' \<or> (y = y' \<and> (m < m' \<or> (m = m' \<and> d < d')))"
  by (auto simp: less_prod_def less_eq_prod_def)

lemma date_le_iff:
  "((y, m, d) :: cal_date) \<le> (y', m', d') \<longleftrightarrow>
     y < y' \<or> (y = y' \<and> (m < m' \<or> (m = m' \<and> d \<le> d')))"
  by (auto simp: less_prod_def less_eq_prod_def)

lemma next_day_greater: "x < next_day x"
proof -
  obtain y m d where x: "x = (y, m, d)" by (cases x) auto
  show ?thesis unfolding x next_day_def by (simp add: date_less_iff)
qed

lemma next_day_valid: "valid_date x \<Longrightarrow> valid_date (next_day x)"
proof -
  assume v: "valid_date x"
  obtain y m d where x: "x = (y, m, d)" by (cases x) auto
  have "1 \<le> days_in_month y (m + 1)" "1 \<le> days_in_month (y + 1) 1"
    by (simp_all add: days_in_month_def)
  with v show ?thesis unfolding x next_day_def valid_date_def by auto
qed

lemma next_day_least:
  assumes "valid_date x" "valid_date z" "x < z"
  shows "next_day x \<le> z"
proof -
  obtain y m d where x: "x = (y, m, d)" by (cases x) auto
  obtain y' m' d' where z: "z = (y', m', d')" by (cases z) auto
  from assms(1) have vx: "1 \<le> m" "m \<le> 12" "1 \<le> d" "d \<le> days_in_month y m"
    by (auto simp: x valid_date_def)
  from assms(2) have vz: "1 \<le> m'" "m' \<le> 12" "1 \<le> d'" "d' \<le> days_in_month y' m'"
    by (auto simp: z valid_date_def)
  from assms(3) have lt: "y < y' \<or> (y = y' \<and> (m < m' \<or> (m = m' \<and> d < d')))"
    unfolding x z date_less_iff .
  show ?thesis
  proof (cases "d < days_in_month y m")
    case True
    then have "next_day x = (y, m, d + 1)" by (simp add: x next_day_def)
    with lt show ?thesis by (auto simp: z date_le_iff)
  next
    case False
    with vx have dd: "d = days_in_month y m" by simp
    show ?thesis
    proof (cases "m < 12")
      case True
      with False have "next_day x = (y, m + 1, 1)" by (simp add: x next_day_def)
      with lt vz dd show ?thesis by (auto simp: z date_le_iff)
    next
      case F: False
      with False have "next_day x = (y + 1, 1, 1)" by (simp add: x next_day_def)
      with lt vz vx dd F show ?thesis by (auto simp: z date_le_iff)
    qed
  qed
qed

lemma inc_loop_done: "\<not> d \<le> T \<Longrightarrow> inc_loop w now T d conn = ([], Inr conn)"
  by (simp add: inc_loop.simps[of w now T d conn])

lemma inc_loop_cases:
  assumes "inc_loop w now T d conn = (ds, r)" and "d \<le> T"
  obtains
    (fetch_failed) e where "process_monthly_file_inc w conn d (snapshot_url d) = Inl e"
      "ds = [d]" "r = Inl e"
  | (log_failed) conn1 n e where
      "process_monthly_file_inc w conn d (snapshot_url d) = Inr (conn1, n)"
      "0 < n" "log_progress now d (snapshot_url d) n conn1 = Inl e" "ds = [d]" "r = Inl e"
  | (step) conn1 n conn2 ds' where
      "process_monthly_file_inc w conn d (snapshot_url d) = Inr (conn1, n)"
      "(if 0 < n then log_progress now d (snapshot_url d) n conn1 else Inr conn1) = Inr conn2"
      "inc_loop w now T (next_day d) conn2 = (ds', r)" "ds = d # ds'"
proof (cases "process_monthly_file_inc w conn d (snapshot_url d)")
  case (Inl e)
  with assms have "ds = [d]" "r = Inl e"
    by (simp_all add: inc_loop.simps[of w now T d conn])
  with Inl show ?thesis by (rule fetch_failed)
next
  case (Inr p)
  obtain conn1 n where p: "p = (conn1, n)" by (cases p) auto
  note pm = Inr[unfolded p]
  show ?thesis
  proof (cases "if 0 < n then log_progress now d (snapshot_url d) n conn1 else Inr conn1")
    case (Inl e)
    then have n: "0 < n" and lp: "log_progress now d (snapshot_url d) n conn1 = Inl e"
      by (auto split: if_splits)
    from assms pm Inl have "ds = [d]" "r = Inl e"
      by (simp_all add: inc_loop.simps[of w now T d conn])
    with pm n lp show ?thesis by (rule log_failed)
  next
    case (Inr conn2)
    obtain ds' r' where rest: "inc_loop w now T (next_day d) conn2 = (ds', r')"
      by (cases "inc_loop w now T (next_day d) conn2") auto
    from assms pm Inr rest have "ds = d # ds'" "r = r'"
      by (simp_all add: inc_loop.simps[of w now T d conn])
    with pm Inr rest show ?thesis by (auto intro: step)
  qed
qed

lemma inc_loop_days:
  assumes "valid_date d" and "inc_loop w now T d conn = (ds, r)"
  shows "sorted_wrt (<) ds \<and>
         set ds \<subseteq> {x. valid_date x \<and> d \<le> x \<and> x \<le> T} \<and>
         (\<forall>x y. valid_date x \<and> d \<le> x \<and> x \<le> y \<and> y \<in> set ds \<longrightarrow> x \<in> set ds) \<and>
         (\<forall>c. r = Inr c \<longrightarrow> {x. valid_date x \<and> d \<le> x \<and> x \<le> T} \<subseteq> set ds)"
  using assms
proof (induction w now T d conn arbitrary: ds r rule: inc_loop.induct)
  case (1 w now T d conn)
  show ?case
  proof (cases "d \<le> T")
    case False
    with "1.prems"(2) have "ds = []" "r = Inr conn" by (simp_all add: inc_loop_done)
    with False show ?thesis by auto
  next
    case True
    have single: "sorted_wrt (<) [d] \<and>
         set [d] \<subseteq> {x. valid_date x \<and> d \<le> x \<and> x \<le> T} \<and>
         (\<forall>x y. valid_date x \<and> d \<le> x \<and> x \<le> y \<and> y \<in> set [d] \<longrightarrow> x \<in> set [d])"
      using True "1.prems"(1) by auto
    from "1.prems"(2) True show ?thesis
    proof (cases rule: inc_loop_cases)
      case (fetch_failed e)
      with single show ?thesis by simp
    next
      case (log_failed conn1 n e)
      with single show ?thesis by simp
    next
      case (step conn1 n conn2 ds')
      have vn: "valid_date (next_day d)" by (rule next_day_valid[OF "1.prems"(1)])
      from "1.IH"[OF True step(1) refl step(2) vn step(3)]
      have srt: "sorted_wrt (<) ds'"
        and sub: "set ds' \<subseteq> {x. valid_date x \<and> next_day d \<le> x \<and> x \<le> T}"
        and clo: "\<And>x y. valid_date x \<Longrightarrow> next_day d \<le> x \<Longrightarrow> x \<le> y \<Longrightarrow> y \<in> set ds'
                     \<Longrightarrow> x \<in> set ds'"
        and all: "\<And>c. r = Inr c \<Longrightarrow> {x. valid_date x \<and> next_day d \<le> x \<and> x \<le> T} \<subseteq> set ds'"
        by blast+
      have gt: "\<And>x. next_day d \<le> x \<Longrightarrow> d < x"
        using next_day_greater[of d] by (rule less_le_trans)
      have nxt: "\<And>x. valid_date x \<Longrightarrow> d \<le> x \<Longrightarrow> x \<noteq> d \<Longrightarrow> next_day d \<le> x"
        using next_day_least[OF "1.prems"(1)] by (simp add: less_le)
      have ge: "\<And>x. x \<in> set ds' \<Longrightarrow> valid_date x \<and> d < x \<and> d \<le> x \<and> x \<le> T"
        using sub gt by (blast intro: less_imp_le)
      have a: "sorted_wrt (<) (d # ds')" using srt ge by simp
      have b: "set (d # ds') \<subseteq> {x. valid_date x \<and> d \<le> x \<and> x \<le> T}"
      proof
        fix x assume "x \<in> set (d # ds')"
        then have "x = d \<or> x \<in> set ds'" by simp
        then show "x \<in> {x. valid_date x \<and> d \<le> x \<and> x \<le> T}"
          using ge True "1.prems"(1) by blast
      qed
      have c: "\<forall>x y. valid_date x \<and> d \<le> x \<and> x \<le> y \<and> y \<in> set (d # ds') \<longrightarrow> x \<in> set (d # ds')"
      proof (intro allI impI)
        fix x y
        assume h: "valid_date x \<and> d \<le> x \<and> x \<le> y \<and> y \<in> set (d # ds')"
        show "x \<in> set (d # ds')"
        proof (cases "x = d")
          case True
          then show ?thesis by simp
        next
          case False
          with h nxt have n: "next_day d \<le> x" by blast
          from h False have "y \<noteq> d" by auto
          with h have "y \<in> set ds'" by simp
          with clo[of x y] h n show ?thesis by simp
        qed
      qed
      have e: "\<forall>c. r = Inr c \<longrightarrow> {x. valid_date x \<and> d \<le> x \<and> x \<le> T} \<subseteq> set (d # ds')"
      proof (intro allI impI subsetI)
        fix c x
        assume r: "r = Inr c" and x: "x \<in> {x. valid_date x \<and> d \<le> x \<and> x \<le> T}"
        show "x \<in> set (d # ds')"
        proof (cases "x = d")
          case True
          then show ?thesis by simp
        next
          case False
          with x nxt have "next_day d \<le> x" by blast
          with all[OF r] x show ?thesis by auto
        qed
      qed
      from a b c e show ?thesis unfolding step(4) by blast
    qed
  qed
qed

lemma inc_step_ok:
  assumes "process_monthly_file_inc w conn d u = Inr (conn1, k)"
  shows "conn1 = conn \<and> k = 0 \<and> w u = NotFound404"
proof (cases "w u")
  case NotFound404
  with assms show ?thesis
    by (simp add: process_monthly_file_inc_def download_parquet_def)
next
  case HTTPFailure
  with assms show ?thesis
    by (simp add: process_monthly_file_inc_def download_parquet_def)
next
  case (Content f)
  with assms show ?thesis
    by (simp add: process_monthly_file_inc_def download_parquet_def row_count_def
          split: sum.splits option.splits prod.splits)
qed

lemma inc_file_found:
  assumes "w u = Content f"
  shows "\<exists>e. process_monthly_file_inc w conn d u = Inl e"
proof (cases "process_monthly_file_inc w conn d u")
  case (Inl e)
  then show ?thesis by blast
next
  case (Inr p)
  obtain conn1 k where "p = (conn1, k)" by (cases p) auto
  with Inr inc_step_ok[of w conn d u conn1 k] assms show ?thesis by simp
qed

lemma inc_file_merged:
  assumes "w u = Content (Parquet B)" and "price_tbl conn = Some S"
    and "merge_inc d B S = Inr (S', n)"
  shows "process_monthly_file_inc w conn d u = Inl AttributeError"
  using assms
  by (simp add: process_monthly_file_inc_def download_parquet_def read_parquet_def
        row_count_def)

lemma inc_loop_ok:
  assumes "inc_loop w now T d conn = (ds, Inr conn')"
  shows "conn' = conn \<and> (\<forall>x \<in> set ds. w (snapshot_url x) = NotFound404)"
  using assms
proof (induction w now T d conn arbitrary: ds rule: inc_loop.induct)
  case (1 w now T d conn)
  show ?case
  proof (cases "d \<le> T")
    case False
    with "1.prems" show ?thesis by (simp add: inc_loop_done)
  next
    case True
    from "1.prems" True show ?thesis
    proof (cases rule: inc_loop_cases)
      case (step conn1 n conn2 ds')
      from inc_step_ok[OF step(1)] have c1: "conn1 = conn" and n: "n = 0"
        and nf: "w (snapshot_url d) = NotFound404" by simp_all
      from step(2) n c1 have c2: "conn2 = conn" by simp
      from "1.IH"[OF True step(1) refl step(2) step(3)] c2 nf step(4)
      show ?thesis by simp
    qed simp_all
  qed
qed

lemma last_date_tables:
  assumes "get_last_processed_date (create_price_table conn0) = (D, conn1)"
  shows "\<exists>S es. price_tbl conn1 = Some S \<and> data_processing_log conn1 = Some es"
proof -
  obtain S where "price_tbl (create_price_table conn0) = Some S"
    by (cases "price_tbl conn0") (auto simp: create_price_table_def)
  with assms show ?thesis
    by (auto simp: get_last_processed_date_def create_log_table_def
          split: option.splits)
qed

lemma url_january: "snapshot_url (2022, Suc 0, d) = url_2022_01"
  by (simp add: snapshot_url_def strftime_Ym_def digit_def url_2022_01_def)

lemma january_merge:
  "merge_inc (2022, 1, 1) [row_a, row_jan3, row_a, row_b] empty_price
     = Inr (\<lparr>primary_key = True, rows = [row_a, row_b]\<rparr>, 2)"
  by (simp add: merge_inc_def new_records_on_def insert_into_price_def Let_def empty_price_def
        ident_def row_a_def row_b_def row_jan3_def)

text \<open>
  C4 (resumable incremental load), at the inputs where the code breaks it: every run for
  which the snapshot of the month of \<open>D\<close>, the date \<^verbatim>\<open>get_last_processed_date\<close> returns,
  is published and \<open>D\<close> is not after the current date \<open>T\<close>. The run calls
  \<^verbatim>\<open>process_monthly_file\<close> for \<open>D\<close> and ends there with an exception, so no later day
  is processed and no ledger entry is written. Where the file decodes and the insert of
  the rows of \<open>D\<close> succeeds, the exception is the \<^verbatim>\<open>AttributeError\<close> of \<^verbatim>\<open>.row_count\<close>,
  raised once the rows are inserted.
\<close>

theorem incremental_aborts:
  assumes "get_last_processed_date (create_price_table conn0) = (D, conn1)"
    and "D \<le> T"
    and "w (snapshot_url D) = Content f"
  shows "(\<exists>e. main_inc w now T conn0 = ([D], Inl e)) \<and>
         (\<forall>B S S' n. f = Parquet B \<and> price_tbl conn1 = Some S \<and>
              merge_inc D B S = Inr (S', n) \<longrightarrow>
            main_inc w now T conn0 = ([D], Inl AttributeError))"
proof -
  have m: "main_inc w now T conn0 = inc_loop w now T D conn1"
    using assms(1) by (simp add: main_inc_def)
  from inc_file_found[where w = w and u = "snapshot_url D", OF assms(3)] obtain e where
    e: "process_monthly_file_inc w conn1 D (snapshot_url D) = Inl e" by blast
  with assms(2) have "inc_loop w now T D conn1 = ([D], Inl e)"
    by (simp add: inc_loop.simps[of w now T D conn1])
  with m have first: "\<exists>e. main_inc w now T conn0 = ([D], Inl e)" by simp
  have second: "\<forall>B S S' n. f = Parquet B \<and> price_tbl conn1 = Some S \<and>
              merge_inc D B S = Inr (S', n) \<longrightarrow>
            main_inc w now T conn0 = ([D], Inl AttributeError)"
  proof (intro allI impI)
    fix B S S' n
    assume h: "f = Parquet B \<and> price_tbl conn1 = Some S \<and> merge_inc D B S = Inr (S', n)"
    with assms(3) have "w (snapshot_url D) = Content (Parquet B)" by simp
    from inc_file_merged[where w = w and u = "snapshot_url D", OF this] h
    have "process_monthly_file_inc w conn1 D (snapshot_url D) = Inl AttributeError" by blast
    with assms(2) m show "main_inc w now T conn0 = ([D], Inl AttributeError)"
      by (simp add: inc_loop.simps[of w now T D conn1])
  qed
  from first second show ?thesis by blast
qed

theorem incremental_aborts_witness:
  "get_last_processed_date (create_price_table conn_none)
     = ((2022, 1, 1), conn_none\<lparr>data_processing_log := Some []\<rparr>) \<and>
   merge_inc (2022, 1, 1) [row_a, row_jan3, row_a, row_b] empty_price
     = Inr (\<lparr>primary_key = True, rows = [row_a, row_b]\<rparr>, 2) \<and>
   main_inc web_jan (\<lambda>u d. 9) (2022, 1, 3) conn_none = ([(2022, 1, 1)], Inl AttributeError) \<and>
   valid_date (2022, 1, 2) \<and> (2022, 1, 2) \<notin> set [(2022, 1, 1) :: cal_date]"
proof -
  have a: "get_last_processed_date (create_price_table conn_none)
     = ((2022, 1, 1), conn_none\<lparr>data_processing_log := Some []\<rparr>)"
    by (simp add: get_last_processed_date_def create_price_table_def create_log_table_def
          conn_none_def)
  have b: "((2022, 1, 1) :: cal_date) \<le> (2022, 1, 3)" by simp
  have c: "web_jan (snapshot_url (2022, 1, 1))
             = Content (Parquet [row_a, row_jan3, row_a, row_b])"
    by (simp add: web_jan_def)
  have p: "price_tbl (conn_none\<lparr>data_processing_log := Some []\<rparr>) = Some empty_price"
    by (simp add: conn_none_def)
  have v: "valid_date (2022, 1, 2)" by (simp add: valid_date_def days_in_month_def)
  from incremental_aborts[where w = web_jan and now = "\<lambda>u d. 9", OF a b c,
         THEN conjunct2, rule_format,
         of "[row_a, row_jan3, row_a, row_b]" empty_price
            "\<lparr>primary_key = True, rows = [row_a, row_b]\<rparr>" 2] p january_merge
  have "main_inc web_jan (\<lambda>u d. 9) (2022, 1, 3) conn_none = ([(2022, 1, 1)], Inl AttributeError)"
    by simp
  with a january_merge v show ?thesis by simp
qed

section \<open>Unique keys\<close>

lemma insert_appends:
  "insert_into_price S new = Inr S' \<Longrightarrow> S' = S\<lparr>rows := rows S @ new\<rparr>"
  by (simp add: insert_into_price_def split: if_splits)

lemma insert_keeps_unique:
  assumes "primary_key S" and "distinct (map ident (rows S))"
    and "insert_into_price S new = Inr S'"
  shows "distinct (map ident (rows S')) \<and> primary_key S'"
proof -
  from assms(1,3) have d: "distinct (map ident new)"
    and n: "\<forall>n \<in> set new. ident n \<notin> ident ` set (rows S)"
    by (auto simp: insert_into_price_def split: if_splits)
  from n have "set (map ident (rows S)) \<inter> set (map ident new) = {}" by auto
  with assms(2) d have "distinct (map ident (rows S @ new))" by simp
  with insert_appends[OF assms(3)] assms(1) show ?thesis by simp
qed

lemma dedup_merge_keeps_unique:
  assumes "primary_key S" and "distinct (map ident (rows S))"
    and "merge_bulk B S = Inr (S', n) \<or> merge_inc d B S = Inr (S', n)"
  shows "distinct (map ident (rows S')) \<and> primary_key S' \<and> (\<exists>new. rows S' = rows S @ new)"
proof -
  from assms(3) obtain new where ins: "insert_into_price S new = Inr S'"
    using merge_bulk_result merge_inc_result by blast
  from insert_keeps_unique[OF assms(1,2) ins] insert_appends[OF ins]
  show ?thesis by auto
qed

text \<open>
  C2 (no duplicate keys), at the input where the code breaks it. On a database file that has
  no \<^verbatim>\<open>price\<close> table yet, \<^verbatim>\<open>load_transactions.py\<close> creates the table without its primary
  key and inserts the whole snapshot; run a second time on the same snapshot it inserts the
  same row again, so two stored rows share one key. The table stays without key for the
  other loaders (\<^verbatim>\<open>IF NOT EXISTS\<close>): their merge then stores two rows of one key as well.
\<close>

theorem load_transactions_duplicates:
  "main_load_transactions web_feb no_tables = Inr loaded_once \<and>
   main_load_transactions web_feb loaded_once = Inr loaded_twice \<and>
   price_tbl loaded_twice = Some \<lparr>primary_key = False, rows = [row_feb, row_feb]\<rparr> \<and>
   \<not> distinct (map ident [row_feb, row_feb]) \<and>
   create_price_table loaded_once = loaded_once \<and>
   merge_bulk [row_a, row_a2] \<lparr>primary_key = False, rows = [row_feb]\<rparr>
     = Inr (\<lparr>primary_key = False, rows = [row_feb, row_a, row_a2]\<rparr>, 2) \<and>
   ident row_a = ident row_a2"
proof -
  have 1: "main_load_transactions web_feb no_tables = Inr loaded_once"
    by (simp add: main_load_transactions_def download_parquet_lt_def web_feb_def
          create_price_table_lt_def no_tables_def read_parquet_def insert_into_price_def
          loaded_once_def)
  have 2: "main_load_transactions web_feb loaded_once = Inr loaded_twice"
    by (simp add: main_load_transactions_def download_parquet_lt_def web_feb_def
          create_price_table_lt_def read_parquet_def insert_into_price_def
          loaded_once_def loaded_twice_def)
  have 3: "price_tbl loaded_twice = Some \<lparr>primary_key = False, rows = [row_feb, row_feb]\<rparr>"
    by (simp add: loaded_twice_def)
  have 4: "\<not> distinct (map ident [row_feb, row_feb])" by simp
  have 5: "create_price_table loaded_once = loaded_once"
    by (simp add: create_price_table_def loaded_once_def)
  have 6: "merge_bulk [row_a, row_a2] \<lparr>primary_key = False, rows = [row_feb]\<rparr>
     = Inr (\<lparr>primary_key = False, rows = [row_feb, row_a, row_a2]\<rparr>, 2)"
    by (simp add: merge_bulk_def new_records_def insert_into_price_def Let_def
          row_a_def row_a2_def row_feb_def)
  have 7: "ident row_a = ident row_a2" by (simp add: ident_def row_a_def row_a2_def)
  from 1 2 3 4 5 6 7 show ?thesis by blast
qed

end
